theory Spec2Isabelle
  imports Complex_Main "HOL-Library.AList" "HOL-Library.Sublist"
begin

section \<open>The views registry of \<^verbatim>\<open>vs/workbench/common/views.ts\<close>\<close>

subsection \<open>View locations\<close>

text \<open>
  A \<^verbatim>\<open>ViewLocation\<close> is an object with one private field \<^verbatim>\<open>_id\<close>. The
  registry keys a JavaScript \<^verbatim>\<open>Map\<close> by such objects, and a \<^verbatim>\<open>Map\<close> compares
  object keys by reference: two objects built with the same id are different keys.
  The model therefore carries the object's identity (\<open>ref\<close>) next to its id.
\<close>

datatype ViewLocation = ViewLocation (ref: nat) (location_id: string)

definition Explorer :: ViewLocation where
  "Explorer = ViewLocation 0 ''explorer''"

definition Debug :: ViewLocation where
  "Debug = ViewLocation 1 ''debug''"

definition Extensions :: ViewLocation where
  "Extensions = ViewLocation 2 ''extensions''"

text \<open>
  \<^verbatim>\<open>getContributedViewLocation\<close>: a \<^verbatim>\<open>switch\<close> with the two cases
  \<^verbatim>\<open>Explorer.id\<close> and \<^verbatim>\<open>Debug.id\<close>, and \<^verbatim>\<open>return void 0\<close> after it.
\<close>

definition getContributedViewLocation :: "string \<Rightarrow> ViewLocation option" where
  "getContributedViewLocation v =
     (if v = location_id Explorer then Some Explorer
      else if v = location_id Debug then Some Debug
      else None)"

subsection \<open>View descriptors\<close>

text \<open>
  \<^verbatim>\<open>IViewDescriptor\<close>. The constructor token (\<^verbatim>\<open>any\<close>) and the context key
  expression are opaque to the registry and stay type parameters; the optional fields
  are options. The two \<^verbatim>\<open>number\<close> fields are never computed with.
\<close>

record ('c, 'w) IViewDescriptor =
  view_id :: string
  name :: string
  location :: ViewLocation
  ctor :: 'c
  when_expr :: "'w option"
  order :: "real option"
  weight :: "real option"
  collapsed :: "bool option"
  canToggleVisibility :: "bool option"

subsection \<open>The registry\<close>

text \<open>
  The three emitters of the registry. What a listener does is outside the registry; a
  call of \<^verbatim>\<open>fire\<close> is recorded, with its payload, in the order it happens.
\<close>

datatype ('c, 'w) event =
    OnViewsRegistered "('c, 'w) IViewDescriptor list"
  | OnViewsDeregistered "('c, 'w) IViewDescriptor list"
  | OnTreeViewDataProviderRegistered string

text \<open>
  The error thrown by \<^verbatim>\<open>registerViews\<close>: the message with key \<^verbatim>\<open>duplicateId\<close>,
  formatted with the view's id and the id of its location.
\<close>

datatype error = DuplicateId string string

text \<open>
  The two private maps. A JavaScript \<^verbatim>\<open>Map\<close> keeps its keys in insertion order,
  \<^verbatim>\<open>set\<close> on a present key replaces the value in place and on a new key appends:
  an association list read with \<^const>\<open>map_of\<close> and written with \<^const>\<open>AList.update\<close>.
  \<open>'p\<close> is the type of the \<^verbatim>\<open>ITreeViewDataProvider\<close> objects.
\<close>

record ('c, 'w, 'p) ViewsRegistryImpl =
  views :: "(ViewLocation \<times> ('c, 'w) IViewDescriptor list) list"
  treeViewDataPoviders :: "(string \<times> 'p) list"
  fired :: "('c, 'w) event list"

definition ViewsRegistry :: "('c, 'w, 'p) ViewsRegistryImpl" where
  "ViewsRegistry = \<lparr>views = [], treeViewDataPoviders = [], fired = []\<rparr>"

text \<open>
  Modelled from the spec: the \<^verbatim>\<open>Emitter\<close> class of \<^verbatim>\<open>vs/base/common/event\<close> is not
  among the sources. A notification is a synchronous point-in-time broadcast; the
  model records it.
\<close>

definition fire :: "('c, 'w) event \<Rightarrow> ('c, 'w, 'p) ViewsRegistryImpl \<Rightarrow> ('c, 'w, 'p) ViewsRegistryImpl" where
  "fire e s = s\<lparr>fired := fired s @ [e]\<rparr>"

text \<open>\<^verbatim>\<open>Array.prototype.indexOf\<close>: the first index of the element, or \<open>-1\<close>.\<close>

fun indexOf :: "'a list \<Rightarrow> 'a \<Rightarrow> int" where
  "indexOf [] x = - 1"
| "indexOf (y # ys) x =
     (if y = x then 0
      else (let i = indexOf ys x in if i = - 1 then - 1 else i + 1))"

text \<open>
  The body of the \<^verbatim>\<open>for\<close> loop of \<^verbatim>\<open>registerViews\<close>, one descriptor at a time. A
  \<^verbatim>\<open>throw\<close> leaves the loop with the registry as it is at that moment.
\<close>

fun registerViews_loop ::
  "('c, 'w) IViewDescriptor list \<Rightarrow> ('c, 'w, 'p) ViewsRegistryImpl
    \<Rightarrow> (error + unit) \<times> ('c, 'w, 'p) ViewsRegistryImpl" where
  "registerViews_loop [] s = (Inr (), s)"
| "registerViews_loop (viewDescriptor # rest) s =
     (let (vs, s1) =
            (case map_of (views s) (location viewDescriptor) of
               None \<Rightarrow> ([], s\<lparr>views := AList.update (location viewDescriptor) [] (views s)\<rparr>)
             | Some vs \<Rightarrow> (vs, s))
      in if list_ex (\<lambda>v. view_id v = view_id viewDescriptor) vs
         then (Inl (DuplicateId (view_id viewDescriptor) (location_id (location viewDescriptor))), s1)
         else registerViews_loop rest
                (s1\<lparr>views := AList.update (location viewDescriptor) (vs @ [viewDescriptor]) (views s1)\<rparr>))"

definition registerViews ::
  "('c, 'w) IViewDescriptor list \<Rightarrow> ('c, 'w, 'p) ViewsRegistryImpl
    \<Rightarrow> (error + unit) \<times> ('c, 'w, 'p) ViewsRegistryImpl" where
  "registerViews viewDescriptors s =
     (if length viewDescriptors \<noteq> 0
      then (case registerViews_loop viewDescriptors s of
              (Inl e, s') \<Rightarrow> (Inl e, s')
            | (Inr u, s') \<Rightarrow> (Inr (), fire (OnViewsRegistered viewDescriptors) s'))
      else (Inr (), s))"

definition deregisterViews ::
  "string list \<Rightarrow> ViewLocation \<Rightarrow> ('c, 'w, 'p) ViewsRegistryImpl \<Rightarrow> ('c, 'w, 'p) ViewsRegistryImpl" where
  "deregisterViews ids loc s =
     (case map_of (views s) loc of
        None \<Rightarrow> s
      | Some vs \<Rightarrow>
          (let viewsToDeregister = filter (\<lambda>view. indexOf ids (view_id view) \<noteq> - 1) vs;
               s1 = (if length viewsToDeregister \<noteq> 0
                     then s\<lparr>views := AList.update loc
                                        (filter (\<lambda>view. indexOf ids (view_id view) = - 1) vs) (views s)\<rparr>
                     else s)
           in fire (OnViewsDeregistered viewsToDeregister) s1))"

text \<open>
  \<^verbatim>\<open>isDataProviderRegistered\<close>: \<^verbatim>\<open>forEach\<close> over the values of \<^verbatim>\<open>_views\<close>, in
  insertion order.
\<close>

definition isDataProviderRegistered :: "string \<Rightarrow> ('c, 'w, 'p) ViewsRegistryImpl \<Rightarrow> bool" where
  "isDataProviderRegistered i s =
     fold (\<lambda>vs registered. registered \<or> list_ex (\<lambda>view. view_id view = i) vs)
          (map snd (views s)) False"

text \<open>
  \<^verbatim>\<open>registerTreeViewDataProvider\<close>. The branch of the guard holds only the comment
  \<^verbatim>\<open>// TODO: throw error\<close>: both branches continue with the same registry.
\<close>

definition registerTreeViewDataProvider ::
  "string \<Rightarrow> 'p \<Rightarrow> ('c, 'w, 'p) ViewsRegistryImpl \<Rightarrow> ('c, 'w, 'p) ViewsRegistryImpl" where
  "registerTreeViewDataProvider i factory s =
     (let s0 = (if \<not> isDataProviderRegistered i s then s else s)
      in fire (OnTreeViewDataProviderRegistered i)
           (s0\<lparr>treeViewDataPoviders := AList.update i factory (treeViewDataPoviders s0)\<rparr>))"

definition deregisterTreeViewDataProviders ::
  "('c, 'w, 'p) ViewsRegistryImpl \<Rightarrow> ('c, 'w, 'p) ViewsRegistryImpl" where
  "deregisterTreeViewDataProviders s = s\<lparr>treeViewDataPoviders := []\<rparr>"

definition getViews :: "ViewLocation \<Rightarrow> ('c, 'w, 'p) ViewsRegistryImpl \<Rightarrow> ('c, 'w) IViewDescriptor list" where
  "getViews loc s = (case map_of (views s) loc of None \<Rightarrow> [] | Some vs \<Rightarrow> vs)"

definition getTreeViewDataProvider :: "string \<Rightarrow> ('c, 'w, 'p) ViewsRegistryImpl \<Rightarrow> 'p option" where
  "getTreeViewDataProvider i s = map_of (treeViewDataPoviders s) i"

subsection \<open>Calls and fixtures\<close>

text \<open>
  The four mutating operations as data, for statements about every sequence of calls. A
  caller that catches the error of \<^const>\<open>registerViews\<close> goes on with the registry as
  the throw left it.
\<close>

datatype ('c, 'w, 'p) call =
    RegisterViews "('c, 'w) IViewDescriptor list"
  | DeregisterViews "string list" ViewLocation
  | RegisterTreeViewDataProvider string 'p
  | DeregisterTreeViewDataProviders

fun call_step :: "('c, 'w, 'p) call \<Rightarrow> ('c, 'w, 'p) ViewsRegistryImpl \<Rightarrow> ('c, 'w, 'p) ViewsRegistryImpl" where
  "call_step (RegisterViews viewDescriptors) s = snd (registerViews viewDescriptors s)"
| "call_step (DeregisterViews ids loc) s = deregisterViews ids loc s"
| "call_step (RegisterTreeViewDataProvider i factory) s = registerTreeViewDataProvider i factory s"
| "call_step DeregisterTreeViewDataProviders s = deregisterTreeViewDataProviders s"

text \<open>
  A descriptor with the given id and location and no optional field, as in the
  end-to-end examples (\<open>{id: "a", location: Explorer}\<close>).
\<close>

definition descriptor :: "string \<Rightarrow> ViewLocation \<Rightarrow> (unit, unit) IViewDescriptor" where
  "descriptor i loc =
     \<lparr>view_id = i, name = i, location = loc, ctor = (), when_expr = None, order = None,
      weight = None, collapsed = None, canToggleVisibility = None\<rparr>"

text \<open>
  The registry of the second end-to-end example: view \<open>a\<close> registered in the debug
  location and deregistered again.
\<close>

definition debug_emptied :: "(unit, unit, unit) ViewsRegistryImpl" where
  "debug_emptied =
     deregisterViews [''a''] Debug (snd (registerViews [descriptor ''a'' Debug] ViewsRegistry))"

section \<open>Basic facts\<close>

lemma indexOf_ge: "- 1 \<le> indexOf xs x"
  by (induction xs) (auto simp: Let_def)

lemma indexOf_eq_minus1: "indexOf xs x = - 1 \<longleftrightarrow> x \<notin> set xs"
proof (induction xs)
  case Nil
  show ?case by simp
next
  case (Cons y ys)
  have "- 1 \<le> indexOf ys x" by (rule indexOf_ge)
  then have "indexOf ys x \<noteq> - 1 \<Longrightarrow> indexOf ys x + 1 \<noteq> - 1" by arith
  with Cons show ?case by (auto simp: Let_def)
qed

lemma getViews_update:
  "getViews loc (s\<lparr>views := AList.update k v (views s)\<rparr>) = (if loc = k then v else getViews loc s)"
  by (simp add: getViews_def update_conv')

lemma getViews_fire: "getViews loc (fire e s) = getViews loc s"
  by (simp add: getViews_def fire_def)

text \<open>One turn of the loop, read through \<^const>\<open>getViews\<close>: it throws, or it pushes.\<close>

lemma loop_Cons_dup:
  assumes "view_id d \<in> view_id ` set (getViews (location d) s)"
  shows "registerViews_loop (d # rest) s = (Inl (DuplicateId (view_id d) (location_id (location d))), s)"
proof (cases "map_of (views s) (location d)")
  case None
  with assms show ?thesis by (simp add: getViews_def)
next
  case (Some vs)
  with assms have "list_ex (\<lambda>v. view_id v = view_id d) vs"
    by (auto simp: getViews_def list_ex_iff)
  with Some show ?thesis by simp
qed

lemma loop_Cons_fresh:
  assumes "view_id d \<notin> view_id ` set (getViews (location d) s)"
  shows "registerViews_loop (d # rest) s =
         registerViews_loop rest
           (s\<lparr>views := AList.update (location d) (getViews (location d) s @ [d]) (views s)\<rparr>)"
proof (cases "map_of (views s) (location d)")
  case None
  then show ?thesis by (simp add: getViews_def)
next
  case (Some vs)
  with assms have "\<not> list_ex (\<lambda>v. view_id v = view_id d) vs"
    by (force simp: getViews_def list_ex_iff image_iff)
  with Some show ?thesis by (simp add: getViews_def)
qed

lemma loop_fired: "fired (snd (registerViews_loop vds s)) = fired s"
proof (induction vds arbitrary: s)
  case Nil
  show ?case by simp
next
  case (Cons d rest)
  show ?case
  proof (cases "view_id d \<in> view_id ` set (getViews (location d) s)")
    case True
    then show ?thesis by (simp add: loop_Cons_dup del: registerViews_loop.simps)
  next
    case False
    then show ?thesis by (simp add: loop_Cons_fresh Cons.IH del: registerViews_loop.simps)
  qed
qed

lemma loop_providers: "treeViewDataPoviders (snd (registerViews_loop vds s)) = treeViewDataPoviders s"
proof (induction vds arbitrary: s)
  case Nil
  show ?case by simp
next
  case (Cons d rest)
  show ?case
  proof (cases "view_id d \<in> view_id ` set (getViews (location d) s)")
    case True
    then show ?thesis by (simp add: loop_Cons_dup del: registerViews_loop.simps)
  next
    case False
    then show ?thesis by (simp add: loop_Cons_fresh Cons.IH del: registerViews_loop.simps)
  qed
qed

subsection \<open>The loop of \<^verbatim>\<open>registerViews\<close>\<close>

lemma loop_views_prefix:
  "prefix (getViews loc s) (getViews loc (snd (registerViews_loop vds s)))"
proof (induction vds arbitrary: s)
  case Nil
  show ?case by simp
next
  case (Cons d rest)
  show ?case
  proof (cases "view_id d \<in> view_id ` set (getViews (location d) s)")
    case True
    then show ?thesis by (simp add: loop_Cons_dup del: registerViews_loop.simps)
  next
    case False
    let ?s1 = "s\<lparr>views := AList.update (location d) (getViews (location d) s @ [d]) (views s)\<rparr>"
    have "prefix (getViews loc s) (getViews loc ?s1)"
      by (simp add: getViews_update)
    also have "prefix (getViews loc ?s1) (getViews loc (snd (registerViews_loop rest ?s1)))"
      by (rule Cons.IH)
    finally show ?thesis using False
      by (simp add: loop_Cons_fresh del: registerViews_loop.simps)
  qed
qed

lemma loop_distinct:
  assumes "\<forall>loc. distinct (map view_id (getViews loc s))"
  shows "distinct (map view_id (getViews loc (snd (registerViews_loop vds s))))"
  using assms
proof (induction vds arbitrary: s)
  case Nil
  then show ?case by simp
next
  case (Cons d rest)
  show ?case
  proof (cases "view_id d \<in> view_id ` set (getViews (location d) s)")
    case True
    then show ?thesis using Cons.prems by (simp add: loop_Cons_dup del: registerViews_loop.simps)
  next
    case False
    let ?s1 = "s\<lparr>views := AList.update (location d) (getViews (location d) s @ [d]) (views s)\<rparr>"
    have "\<forall>loc. distinct (map view_id (getViews loc ?s1))"
      using Cons.prems False by (simp add: getViews_update)
    then have "distinct (map view_id (getViews loc (snd (registerViews_loop rest ?s1))))"
      by (rule Cons.IH)
    then show ?thesis using False
      by (simp add: loop_Cons_fresh del: registerViews_loop.simps)
  qed
qed

lemma loop_success:
  assumes "distinct (map (\<lambda>v. (location v, view_id v)) vds)"
    and "\<forall>v\<in>set vds. view_id v \<notin> view_id ` set (getViews (location v) s)"
  shows "fst (registerViews_loop vds s) = Inr ()
       \<and> (\<forall>loc. getViews loc (snd (registerViews_loop vds s)) =
                  getViews loc s @ filter (\<lambda>v. location v = loc) vds)"
  using assms
proof (induction vds arbitrary: s)
  case Nil
  show ?case by simp
next
  case (Cons d rest)
  let ?s1 = "s\<lparr>views := AList.update (location d) (getViews (location d) s @ [d]) (views s)\<rparr>"
  from Cons.prems have fresh: "view_id d \<notin> view_id ` set (getViews (location d) s)"
    by simp
  have step: "registerViews_loop (d # rest) s = registerViews_loop rest ?s1"
    using fresh by (rule loop_Cons_fresh)
  have d1: "distinct (map (\<lambda>v. (location v, view_id v)) rest)"
    using Cons.prems(1) by simp
  have d2: "\<forall>v\<in>set rest. view_id v \<notin> view_id ` set (getViews (location v) ?s1)"
  proof
    fix v assume v: "v \<in> set rest"
    then have "view_id v \<notin> view_id ` set (getViews (location v) s)"
      using Cons.prems(2) by simp
    moreover have "(location v, view_id v) \<noteq> (location d, view_id d)"
      using Cons.prems(1) v by (auto simp: image_iff)
    ultimately show "view_id v \<notin> view_id ` set (getViews (location v) ?s1)"
      by (auto simp: getViews_update)
  qed
  from Cons.IH [OF d1 d2] show ?case
    by (simp add: step getViews_update del: registerViews_loop.simps)
qed

lemma loop_collision:
  assumes "distinct (map (\<lambda>v. (location v, view_id v)) pre)"
    and "\<forall>v\<in>set pre. view_id v \<notin> view_id ` set (getViews (location v) s)"
    and "view_id d \<in> view_id ` set (getViews (location d) s @ filter (\<lambda>v. location v = location d) pre)"
  shows "fst (registerViews_loop (pre @ d # post) s) = Inl (DuplicateId (view_id d) (location_id (location d)))
       \<and> (\<forall>loc. getViews loc (snd (registerViews_loop (pre @ d # post) s)) =
                  getViews loc s @ filter (\<lambda>v. location v = loc) pre)"
  using assms
proof (induction pre arbitrary: s)
  case Nil
  then have "view_id d \<in> view_id ` set (getViews (location d) s)" by simp
  then show ?case by (simp add: loop_Cons_dup del: registerViews_loop.simps)
next
  case (Cons p pre)
  let ?s1 = "s\<lparr>views := AList.update (location p) (getViews (location p) s @ [p]) (views s)\<rparr>"
  from Cons.prems have fresh: "view_id p \<notin> view_id ` set (getViews (location p) s)"
    by simp
  have step: "registerViews_loop (p # pre @ d # post) s = registerViews_loop (pre @ d # post) ?s1"
    using fresh by (rule loop_Cons_fresh)
  have d1: "distinct (map (\<lambda>v. (location v, view_id v)) pre)"
    using Cons.prems(1) by simp
  have d2: "\<forall>v\<in>set pre. view_id v \<notin> view_id ` set (getViews (location v) ?s1)"
  proof
    fix v assume v: "v \<in> set pre"
    then have "view_id v \<notin> view_id ` set (getViews (location v) s)"
      using Cons.prems(2) by simp
    moreover have "(location v, view_id v) \<noteq> (location p, view_id p)"
      using Cons.prems(1) v by (auto simp: image_iff)
    ultimately show "view_id v \<notin> view_id ` set (getViews (location v) ?s1)"
      by (auto simp: getViews_update)
  qed
  have d3: "view_id d \<in> view_id ` set (getViews (location d) ?s1 @ filter (\<lambda>v. location v = location d) pre)"
    using Cons.prems(3) by (auto simp: getViews_update)
  from Cons.IH [OF d1 d2 d3] show ?case
    by (simp add: step getViews_update del: registerViews_loop.simps)
qed

lemma first_collision:
  assumes "\<not> (distinct (map (\<lambda>v. (location v, view_id v)) vds)
              \<and> (\<forall>v\<in>set vds. view_id v \<notin> view_id ` set (getViews (location v) s)))"
  shows "\<exists>pre d post. vds = pre @ d # post
          \<and> distinct (map (\<lambda>v. (location v, view_id v)) pre)
          \<and> (\<forall>v\<in>set pre. view_id v \<notin> view_id ` set (getViews (location v) s))
          \<and> view_id d \<in> view_id ` set (getViews (location d) s @ filter (\<lambda>v. location v = location d) pre)"
  using assms
proof (induction vds rule: rev_induct)
  case Nil
  then show ?case by simp
next
  case (snoc x xs)
  let ?ok = "distinct (map (\<lambda>v. (location v, view_id v)) xs)
              \<and> (\<forall>v\<in>set xs. view_id v \<notin> view_id ` set (getViews (location v) s))"
  show ?case
  proof (cases ?ok)
    case False
    from snoc.IH [OF False] obtain pre d post where
      "xs = pre @ d # post"
      "distinct (map (\<lambda>v. (location v, view_id v)) pre)"
      "\<forall>v\<in>set pre. view_id v \<notin> view_id ` set (getViews (location v) s)"
      "view_id d \<in> view_id ` set (getViews (location d) s @ filter (\<lambda>v. location v = location d) pre)"
      by blast
    then have "xs @ [x] = pre @ d # (post @ [x])" by simp
    with \<open>distinct (map (\<lambda>v. (location v, view_id v)) pre)\<close>
      \<open>\<forall>v\<in>set pre. view_id v \<notin> view_id ` set (getViews (location v) s)\<close>
      \<open>view_id d \<in> view_id ` set (getViews (location d) s @ filter (\<lambda>v. location v = location d) pre)\<close>
    show ?thesis by blast
  next
    case True
    with snoc.prems have "(location x, view_id x) \<in> (\<lambda>v. (location v, view_id v)) ` set xs
        \<or> view_id x \<in> view_id ` set (getViews (location x) s)"
      by auto
    then have "view_id x \<in> view_id ` set (getViews (location x) s @ filter (\<lambda>v. location v = location x) xs)"
      by force
    with True have "xs @ [x] = xs @ x # [] \<and> distinct (map (\<lambda>v. (location v, view_id v)) xs)
          \<and> (\<forall>v\<in>set xs. view_id v \<notin> view_id ` set (getViews (location v) s))
          \<and> view_id x \<in> view_id ` set (getViews (location x) s @ filter (\<lambda>v. location v = location x) xs)"
      by simp
    then show ?thesis by blast
  qed
qed

lemma loop_error_short:
  assumes "isl (fst (registerViews_loop vds s))"
  shows "\<exists>loc. length (getViews loc (snd (registerViews_loop vds s)))
               < length (getViews loc s) + length (filter (\<lambda>v. location v = loc) vds)"
  using assms
proof (induction vds arbitrary: s)
  case Nil
  then show ?case by simp
next
  case (Cons d rest)
  show ?case
  proof (cases "view_id d \<in> view_id ` set (getViews (location d) s)")
    case True
    then have "length (getViews (location d) (snd (registerViews_loop (d # rest) s)))
               < length (getViews (location d) s) + length (filter (\<lambda>v. location v = location d) (d # rest))"
      by (simp add: loop_Cons_dup del: registerViews_loop.simps)
    then show ?thesis by blast
  next
    case False
    let ?s1 = "s\<lparr>views := AList.update (location d) (getViews (location d) s @ [d]) (views s)\<rparr>"
    have step: "registerViews_loop (d # rest) s = registerViews_loop rest ?s1"
      using False by (rule loop_Cons_fresh)
    with Cons.prems have "isl (fst (registerViews_loop rest ?s1))" by simp
    from Cons.IH [OF this] obtain loc where
      "length (getViews loc (snd (registerViews_loop rest ?s1)))
         < length (getViews loc ?s1) + length (filter (\<lambda>v. location v = loc) rest)"
      by blast
    then have "length (getViews loc (snd (registerViews_loop (d # rest) s)))
         < length (getViews loc s) + length (filter (\<lambda>v. location v = loc) (d # rest))"
      by (simp add: step getViews_update del: registerViews_loop.simps split: if_splits)
    then show ?thesis by blast
  qed
qed

lemma loop_error_iff:
  "isl (fst (registerViews_loop vds s)) \<longleftrightarrow>
     \<not> (distinct (map (\<lambda>v. (location v, view_id v)) vds)
        \<and> (\<forall>v\<in>set vds. view_id v \<notin> view_id ` set (getViews (location v) s)))"
proof
  assume "isl (fst (registerViews_loop vds s))"
  then have "fst (registerViews_loop vds s) \<noteq> Inr ()" by auto
  then show "\<not> (distinct (map (\<lambda>v. (location v, view_id v)) vds)
        \<and> (\<forall>v\<in>set vds. view_id v \<notin> view_id ` set (getViews (location v) s)))"
    using loop_success [of vds s] by blast
next
  assume "\<not> (distinct (map (\<lambda>v. (location v, view_id v)) vds)
        \<and> (\<forall>v\<in>set vds. view_id v \<notin> view_id ` set (getViews (location v) s)))"
  from first_collision [OF this] obtain pre d post where
    "vds = pre @ d # post"
    "distinct (map (\<lambda>v. (location v, view_id v)) pre)"
    "\<forall>v\<in>set pre. view_id v \<notin> view_id ` set (getViews (location v) s)"
    "view_id d \<in> view_id ` set (getViews (location d) s @ filter (\<lambda>v. location v = location d) pre)"
    by blast
  then show "isl (fst (registerViews_loop vds s))"
    using loop_collision [of pre s d post] by simp
qed

lemma registerViews_fst: "fst (registerViews vds s) = fst (registerViews_loop vds s)"
proof (cases "registerViews_loop vds s")
  case (Pair r s')
  then show ?thesis
    by (cases r) (auto simp add: registerViews_def simp del: registerViews_loop.simps(2))
qed

lemma registerViews_getViews:
  "getViews loc (snd (registerViews vds s)) = getViews loc (snd (registerViews_loop vds s))"
proof (cases "registerViews_loop vds s")
  case (Pair r s')
  then show ?thesis
    by (cases r) (auto simp add: registerViews_def getViews_fire simp del: registerViews_loop.simps(2))
qed

lemma registerViews_providers:
  "treeViewDataPoviders (snd (registerViews vds s)) = treeViewDataPoviders s"
proof (cases "registerViews_loop vds s")
  case (Pair r s')
  then have "treeViewDataPoviders s' = treeViewDataPoviders s"
    using loop_providers [of vds s] by simp
  with Pair show ?thesis
    by (cases r) (auto simp add: registerViews_def fire_def simp del: registerViews_loop.simps(2))
qed

lemma registerViews_fired:
  "fired (snd (registerViews vds s)) =
     (if vds \<noteq> [] \<and> fst (registerViews_loop vds s) = Inr ()
      then fired s @ [OnViewsRegistered vds] else fired s)"
proof (cases "registerViews_loop vds s")
  case (Pair r s')
  then have "fired s' = fired s"
    using loop_fired [of vds s] by simp
  with Pair show ?thesis
    by (cases r) (auto simp add: registerViews_def fire_def simp del: registerViews_loop.simps(2))
qed

subsection \<open>\<^verbatim>\<open>registerViews\<close> through its loop\<close>

lemma registerViews_whole_batch_iff:
  "fst (registerViews vds s) = Inr () \<longleftrightarrow>
     (\<forall>loc. getViews loc (snd (registerViews vds s)) =
             getViews loc s @ filter (\<lambda>v. location v = loc) vds)"
proof
  assume "fst (registerViews vds s) = Inr ()"
  then have "\<not> isl (fst (registerViews_loop vds s))"
    by (simp add: registerViews_fst)
  then have "distinct (map (\<lambda>v. (location v, view_id v)) vds)
        \<and> (\<forall>v\<in>set vds. view_id v \<notin> view_id ` set (getViews (location v) s))"
    by (simp only: loop_error_iff) simp
  then show "\<forall>loc. getViews loc (snd (registerViews vds s)) =
             getViews loc s @ filter (\<lambda>v. location v = loc) vds"
    using loop_success [of vds s] by (simp add: registerViews_getViews)
next
  assume all: "\<forall>loc. getViews loc (snd (registerViews vds s)) =
             getViews loc s @ filter (\<lambda>v. location v = loc) vds"
  show "fst (registerViews vds s) = Inr ()"
  proof (rule ccontr)
    assume "fst (registerViews vds s) \<noteq> Inr ()"
    then have "isl (fst (registerViews_loop vds s))"
      by (cases "fst (registerViews_loop vds s)") (simp_all add: registerViews_fst)
    from loop_error_short [OF this] obtain loc where
      "length (getViews loc (snd (registerViews_loop vds s)))
         < length (getViews loc s) + length (filter (\<lambda>v. location v = loc) vds)"
      by blast
    with all show False by (simp add: registerViews_getViews)
  qed
qed

lemma registerViews_prefix:
  "prefix (getViews loc s) (getViews loc (snd (registerViews vds s)))"
  by (simp add: registerViews_getViews loop_views_prefix)

text \<open>
  Any sequence of \<^const>\<open>registerViews\<close> calls with pairwise different (id, location)
  pairs, none of them in the registry: \<^const>\<open>getViews\<close> returns the registered
  descriptors of the location in registration order.
\<close>

lemma getViews_after_registerViews_calls:
  assumes "distinct (map (\<lambda>v. (location v, view_id v)) (concat batches))"
    and "\<forall>v\<in>set (concat batches). view_id v \<notin> view_id ` set (getViews (location v) s)"
  shows "getViews loc (fold call_step (map RegisterViews batches) s) =
           getViews loc s @ filter (\<lambda>v. location v = loc) (concat batches)"
  using assms
proof (induction batches arbitrary: s)
  case Nil
  show ?case by simp
next
  case (Cons b bs)
  let ?s1 = "snd (registerViews b s)"
  have b1: "distinct (map (\<lambda>v. (location v, view_id v)) b)"
    using Cons.prems(1) by simp
  have b2: "\<forall>v\<in>set b. view_id v \<notin> view_id ` set (getViews (location v) s)"
    using Cons.prems(2) by simp
  have views1: "\<And>l. getViews l ?s1 = getViews l s @ filter (\<lambda>v. location v = l) b"
    using loop_success [OF b1 b2] by (simp add: registerViews_getViews)
  have d1: "distinct (map (\<lambda>v. (location v, view_id v)) (concat bs))"
    using Cons.prems(1) by simp
  have d2: "\<forall>v\<in>set (concat bs). view_id v \<notin> view_id ` set (getViews (location v) ?s1)"
  proof
    fix v assume v: "v \<in> set (concat bs)"
    then have "view_id v \<notin> view_id ` set (getViews (location v) s)"
      using Cons.prems(2) by simp
    moreover have "\<forall>x\<in>set b. \<not> (location x = location v \<and> view_id x = view_id v)"
      using Cons.prems(1) v by (auto simp: image_iff)
    ultimately show "view_id v \<notin> view_id ` set (getViews (location v) ?s1)"
      by (auto simp: views1)
  qed
  from Cons.IH [OF d1 d2] show ?case by (simp add: views1)
qed

subsection \<open>\<^verbatim>\<open>deregisterViews\<close>\<close>

lemma filter_indexOf_in:
  "filter (\<lambda>view. indexOf ids (view_id view) \<noteq> - 1) vs = filter (\<lambda>v. view_id v \<in> set ids) vs"
  by (simp add: indexOf_eq_minus1)

lemma filter_indexOf_out:
  "filter (\<lambda>view. indexOf ids (view_id view) = - 1) vs = filter (\<lambda>v. view_id v \<notin> set ids) vs"
  by (simp add: indexOf_eq_minus1)

lemma filter_none_matched:
  assumes "filter P xs = []"
  shows "filter (\<lambda>x. \<not> P x) xs = xs"
  using assms by (induction xs) (auto split: if_splits)

lemma deregisterViews_unknown:
  "map_of (views s) loc = None \<Longrightarrow> deregisterViews ids loc s = s"
  by (simp add: deregisterViews_def)

lemma deregisterViews_known:
  assumes "map_of (views s) loc = Some vs"
  shows "map_of (views (deregisterViews ids loc s)) loc = Some (filter (\<lambda>v. view_id v \<notin> set ids) vs)"
    and "fired (deregisterViews ids loc s) =
           fired s @ [OnViewsDeregistered (filter (\<lambda>v. view_id v \<in> set ids) vs)]"
proof -
  show "fired (deregisterViews ids loc s) =
           fired s @ [OnViewsDeregistered (filter (\<lambda>v. view_id v \<in> set ids) vs)]"
    using assms by (simp add: deregisterViews_def Let_def fire_def filter_indexOf_in)
  show "map_of (views (deregisterViews ids loc s)) loc = Some (filter (\<lambda>v. view_id v \<notin> set ids) vs)"
  proof (cases "filter (\<lambda>v. view_id v \<in> set ids) vs = []")
    case True
    then have "filter (\<lambda>v. view_id v \<notin> set ids) vs = vs"
      by (rule filter_none_matched)
    with True assms show ?thesis
      by (simp add: deregisterViews_def Let_def fire_def filter_indexOf_in)
  next
    case False
    with assms show ?thesis
      by (simp add: deregisterViews_def Let_def fire_def filter_indexOf_in filter_indexOf_out
          update_conv')
  qed
qed

lemma deregisterViews_other:
  assumes "loc' \<noteq> loc"
  shows "map_of (views (deregisterViews ids loc s)) loc' = map_of (views s) loc'"
  using assms
  by (cases "map_of (views s) loc")
     (simp_all add: deregisterViews_def Let_def fire_def update_conv')

lemma deregisterViews_providers:
  "treeViewDataPoviders (deregisterViews ids loc s) = treeViewDataPoviders s"
  by (cases "map_of (views s) loc") (simp_all add: deregisterViews_def Let_def fire_def)

lemma getViews_deregisterViews:
  "getViews loc' (deregisterViews ids loc s) =
     (if loc' = loc then filter (\<lambda>v. view_id v \<notin> set ids) (getViews loc s) else getViews loc' s)"
proof (cases "loc' = loc")
  case False
  then show ?thesis by (simp add: getViews_def deregisterViews_other)
next
  case True
  show ?thesis
  proof (cases "map_of (views s) loc")
    case None
    then show ?thesis using True by (simp add: deregisterViews_unknown) (simp add: getViews_def)
  next
    case (Some vs)
    from deregisterViews_known(1) [OF Some, of ids] Some True show ?thesis
      by (simp add: getViews_def)
  qed
qed

lemma call_step_distinct:
  assumes "\<forall>loc. distinct (map view_id (getViews loc s))"
  shows "distinct (map view_id (getViews loc (call_step c s)))"
proof (cases c)
  case (RegisterViews vds)
  then show ?thesis using loop_distinct [OF assms] by (simp add: registerViews_getViews)
next
  case (DeregisterViews ids l)
  then show ?thesis using assms by (simp add: getViews_deregisterViews distinct_map_filter)
next
  case (RegisterTreeViewDataProvider i p)
  then show ?thesis using assms
    by (simp add: getViews_def registerTreeViewDataProvider_def fire_def)
next
  case DeregisterTreeViewDataProviders
  then show ?thesis using assms
    by (simp add: getViews_def deregisterTreeViewDataProviders_def)
qed

lemma fold_call_step_distinct:
  assumes "\<forall>loc. distinct (map view_id (getViews loc s))"
  shows "distinct (map view_id (getViews loc (fold call_step calls s)))"
  using assms
proof (induction calls arbitrary: s)
  case Nil
  then show ?case by simp
next
  case (Cons c calls)
  have "\<forall>loc. distinct (map view_id (getViews loc (call_step c s)))"
    using call_step_distinct [OF Cons.prems] by blast
  from Cons.IH [OF this] show ?case by simp
qed

lemma getViews_ViewsRegistry: "getViews loc ViewsRegistry = []"
  by (simp add: getViews_def ViewsRegistry_def)

section \<open>Resolving a location name\<close>

text \<open>
  C4, as stated, fails: the name \<open>''extensions''\<close> is the id of the canonical instance
  \<^const>\<open>Extensions\<close>, yet \<^const>\<open>getContributedViewLocation\<close> returns nothing for it.
\<close>

theorem getContributedViewLocation_extensions_absent:
  "location_id Extensions = ''extensions'' \<and> getContributedViewLocation ''extensions'' = None"
  by (simp add: getContributedViewLocation_def Explorer_def Debug_def Extensions_def)

text \<open>
  C4, amended: for every string, \<^const>\<open>getContributedViewLocation\<close> returns the canonical
  instance \<^const>\<open>Explorer\<close> for \<open>''explorer''\<close>, the canonical instance \<^const>\<open>Debug\<close> for
  \<open>''debug''\<close>, and nothing for every other string (\<open>''extensions''\<close> among them); the id
  of a returned instance is the given name. The function is pure.
\<close>

theorem getContributedViewLocation_resolves:
  "getContributedViewLocation v =
     (if v = ''explorer'' then Some Explorer else if v = ''debug'' then Some Debug else None)
   \<and> map_option location_id (getContributedViewLocation v) =
     (if v = ''explorer'' \<or> v = ''debug'' then Some v else None)"
  by (simp add: getContributedViewLocation_def Explorer_def Debug_def)

section \<open>Tree view data providers\<close>

text \<open>
  C6: in every registry, \<^const>\<open>registerTreeViewDataProvider\<close> binds the provider to the
  id and leaves the binding of every other id as it is, so that afterwards
  \<^const>\<open>getTreeViewDataProvider\<close> returns the provider for that id, whatever was bound
  before. For every id and providers \<open>P1\<close>, \<open>P2\<close>: after registering \<open>P1\<close> and then
  \<open>P2\<close> under the same id, \<^const>\<open>getTreeViewDataProvider\<close> returns \<open>P2\<close> (the
  function has no error result: the binding is replaced, never rejected), and each of
  the two registrations fires exactly one tree-provider-registered notification
  carrying the id.
\<close>

theorem registerTreeViewDataProvider_replaces:
  "getTreeViewDataProvider j (registerTreeViewDataProvider i P s) =
     (if j = i then Some P else getTreeViewDataProvider j s)
   \<and> getTreeViewDataProvider i (registerTreeViewDataProvider i P s) = Some P
   \<and> getTreeViewDataProvider i
       (registerTreeViewDataProvider i P2 (registerTreeViewDataProvider i P1 s)) = Some P2
   \<and> fired (registerTreeViewDataProvider i P1 s) = fired s @ [OnTreeViewDataProviderRegistered i]
   \<and> fired (registerTreeViewDataProvider i P2 (registerTreeViewDataProvider i P1 s)) =
       fired (registerTreeViewDataProvider i P1 s) @ [OnTreeViewDataProviderRegistered i]"
  by (simp add: getTreeViewDataProvider_def registerTreeViewDataProvider_def fire_def update_conv')

text \<open>
  C7: after \<^const>\<open>deregisterTreeViewDataProviders\<close>, in whatever registry it is called,
  \<^const>\<open>getTreeViewDataProvider\<close> returns nothing for every id; no notification fires.
\<close>

theorem deregisterTreeViewDataProviders_clears:
  "getTreeViewDataProvider i (deregisterTreeViewDataProviders s) = None
   \<and> fired (deregisterTreeViewDataProviders s) = fired s"
  by (simp add: getTreeViewDataProvider_def deregisterTreeViewDataProviders_def)

section \<open>Registering views\<close>

text \<open>
  C8: \<^const>\<open>registerViews\<close> with the empty sequence raises no error and returns the
  registry as it was: no map changed, no notification fired.
\<close>

theorem registerViews_empty: "registerViews [] s = (Inr (), s)"
  by (simp add: registerViews_def)

text \<open>
  C1: a call of \<^const>\<open>registerViews\<close> whose input is \<open>pre @ d # post\<close>, where the
  descriptors of \<open>pre\<close> collide neither with each other nor with the registry and the id
  of \<open>d\<close> already exists in the sequence of \<open>d\<close>'s location when \<open>d\<close>'s turn comes
  (in the registry before the call, or put there by \<open>pre\<close>), raises the duplicate-id
  error carrying the id of \<open>d\<close> and the id of its location; afterwards every location's
  sequence is what it was followed by the descriptors of \<open>pre\<close> for that location:
  those stay inserted, \<open>d\<close> and \<open>post\<close> are not inserted. By \<open>first_collision\<close> every
  input with a collision has this shape.
\<close>

theorem registerViews_duplicate:
  assumes "distinct (map (\<lambda>v. (location v, view_id v)) pre)"
    and "\<forall>v\<in>set pre. view_id v \<notin> view_id ` set (getViews (location v) s)"
    and "view_id d \<in> view_id ` set (getViews (location d) s @ filter (\<lambda>v. location v = location d) pre)"
  shows "fst (registerViews (pre @ d # post) s) = Inl (DuplicateId (view_id d) (location_id (location d)))
       \<and> (\<forall>loc. getViews loc (snd (registerViews (pre @ d # post) s)) =
                  getViews loc s @ filter (\<lambda>v. location v = loc) pre)"
  using loop_collision [OF assms, of post]
  by (simp add: registerViews_fst registerViews_getViews del: registerViews_loop.simps)

text \<open>Witness for C1: the third descriptor of a batch repeats the first.\<close>

theorem registerViews_duplicate_witness:
  "fst (registerViews [descriptor ''a'' Explorer, descriptor ''b'' Debug, descriptor ''a'' Explorer,
                       descriptor ''c'' Explorer]
          (ViewsRegistry :: (unit, unit, unit) ViewsRegistryImpl))
     = Inl (DuplicateId ''a'' ''explorer'')
   \<and> getViews Explorer (snd (registerViews [descriptor ''a'' Explorer, descriptor ''b'' Debug,
        descriptor ''a'' Explorer, descriptor ''c'' Explorer]
        (ViewsRegistry :: (unit, unit, unit) ViewsRegistryImpl))) = [descriptor ''a'' Explorer]
   \<and> getViews Debug (snd (registerViews [descriptor ''a'' Explorer, descriptor ''b'' Debug,
        descriptor ''a'' Explorer, descriptor ''c'' Explorer]
        (ViewsRegistry :: (unit, unit, unit) ViewsRegistryImpl))) = [descriptor ''b'' Debug]"
proof -
  let ?pre = "[descriptor ''a'' Explorer, descriptor ''b'' Debug]"
  let ?s = "ViewsRegistry :: (unit, unit, unit) ViewsRegistryImpl"
  have h1: "distinct (map (\<lambda>v. (location v, view_id v)) ?pre)"
    by (simp add: descriptor_def Explorer_def Debug_def)
  have h2: "\<forall>v\<in>set ?pre. view_id v \<notin> view_id ` set (getViews (location v) ?s)"
    by (simp add: getViews_def ViewsRegistry_def)
  have h3: "view_id (descriptor ''a'' Explorer) \<in> view_id ` set (getViews (location (descriptor ''a'' Explorer)) ?s
               @ filter (\<lambda>v. location v = location (descriptor ''a'' Explorer)) ?pre)"
    by (simp add: descriptor_def)
  let ?vds = "?pre @ descriptor ''a'' Explorer # [descriptor ''c'' Explorer]"
  from registerViews_duplicate [OF h1 h2 h3, of "[descriptor ''c'' Explorer]"]
  have "fst (registerViews ?vds ?s) =
          Inl (DuplicateId (view_id (descriptor ''a'' Explorer))
                (location_id (location (descriptor ''a'' Explorer))))
      \<and> getViews Explorer (snd (registerViews ?vds ?s)) =
          getViews Explorer ?s @ filter (\<lambda>v. location v = Explorer) ?pre
      \<and> getViews Debug (snd (registerViews ?vds ?s)) =
          getViews Debug ?s @ filter (\<lambda>v. location v = Debug) ?pre"
    by blast
  then show ?thesis
    by (simp add: descriptor_def getViews_def ViewsRegistry_def Explorer_def Debug_def)
qed

text \<open>
  C2: a call of \<^const>\<open>registerViews\<close> on a non-empty input whose (id, location) pairs
  collide neither with each other nor with the registry raises nothing; afterwards
  \<^const>\<open>getViews\<close> returns, for every location, what it returned before followed by the
  input's descriptors for that location in input order; and exactly one
  views-registered notification is fired, carrying the whole input.
\<close>

theorem registerViews_appends:
  assumes "vds \<noteq> []"
    and "distinct (map (\<lambda>v. (location v, view_id v)) vds)"
    and "\<forall>v\<in>set vds. view_id v \<notin> view_id ` set (getViews (location v) s)"
  shows "fst (registerViews vds s) = Inr ()
       \<and> (\<forall>loc. getViews loc (snd (registerViews vds s)) =
                  getViews loc s @ filter (\<lambda>v. location v = loc) vds)
       \<and> fired (snd (registerViews vds s)) = fired s @ [OnViewsRegistered vds]"
  using loop_success [OF assms(2,3)] assms(1)
  by (simp add: registerViews_fst registerViews_getViews registerViews_fired del: registerViews_loop.simps)

text \<open>Witness for C2: two views registered in the explorer in one call.\<close>

theorem registerViews_appends_witness:
  "fst (registerViews [descriptor ''a'' Explorer, descriptor ''b'' Explorer]
          (ViewsRegistry :: (unit, unit, unit) ViewsRegistryImpl)) = Inr ()
   \<and> getViews Explorer (snd (registerViews [descriptor ''a'' Explorer, descriptor ''b'' Explorer]
        (ViewsRegistry :: (unit, unit, unit) ViewsRegistryImpl)))
       = [descriptor ''a'' Explorer, descriptor ''b'' Explorer]
   \<and> fired (snd (registerViews [descriptor ''a'' Explorer, descriptor ''b'' Explorer]
        (ViewsRegistry :: (unit, unit, unit) ViewsRegistryImpl)))
       = [OnViewsRegistered [descriptor ''a'' Explorer, descriptor ''b'' Explorer]]"
proof -
  let ?vds = "[descriptor ''a'' Explorer, descriptor ''b'' Explorer]"
  let ?s = "ViewsRegistry :: (unit, unit, unit) ViewsRegistryImpl"
  have h1: "?vds \<noteq> []" by simp
  have h2: "distinct (map (\<lambda>v. (location v, view_id v)) ?vds)"
    by (simp add: descriptor_def)
  have h3: "\<forall>v\<in>set ?vds. view_id v \<notin> view_id ` set (getViews (location v) ?s)"
    by (simp add: getViews_def ViewsRegistry_def)
  from registerViews_appends [OF h1 h2 h3]
  have "fst (registerViews ?vds ?s) = Inr ()
      \<and> getViews Explorer (snd (registerViews ?vds ?s)) =
          getViews Explorer ?s @ filter (\<lambda>v. location v = Explorer) ?vds
      \<and> fired (snd (registerViews ?vds ?s)) = fired ?s @ [OnViewsRegistered ?vds]"
    by blast
  then show ?thesis
    by (simp add: descriptor_def getViews_def ViewsRegistry_def)
qed

text \<open>
  C9, as stated, fails at the empty batch: the call raises nothing, every descriptor of
  the (empty) batch is in the registry, and yet no notification is fired.
\<close>

theorem registerViews_empty_batch_silent:
  "fst (registerViews [] (ViewsRegistry :: (unit, unit, unit) ViewsRegistryImpl)) = Inr ()
   \<and> fired (snd (registerViews [] (ViewsRegistry :: (unit, unit, unit) ViewsRegistryImpl))) = []"
  by (simp add: registerViews_def ViewsRegistry_def)

text \<open>
  C9, amended: \<^const>\<open>registerViews\<close> raises the duplicate-id error exactly when a
  descriptor collides with the registry or with an earlier descriptor of the batch; when
  it raises, no notification is fired; an empty batch fires none either; a non-empty
  batch that raises nothing fires one views-registered notification carrying the batch.
  Raising nothing is the same as the whole batch being inserted.
\<close>

theorem registerViews_notification:
  "(isl (fst (registerViews vds s)) \<longleftrightarrow>
      \<not> (distinct (map (\<lambda>v. (location v, view_id v)) vds)
         \<and> (\<forall>v\<in>set vds. view_id v \<notin> view_id ` set (getViews (location v) s))))
   \<and> (isl (fst (registerViews vds s)) \<longrightarrow> fired (snd (registerViews vds s)) = fired s)
   \<and> (vds = [] \<longrightarrow> fired (snd (registerViews vds s)) = fired s)
   \<and> (vds \<noteq> [] \<and> fst (registerViews vds s) = Inr () \<longrightarrow>
        fired (snd (registerViews vds s)) = fired s @ [OnViewsRegistered vds])
   \<and> (fst (registerViews vds s) = Inr () \<longleftrightarrow>
        (\<forall>loc. getViews loc (snd (registerViews vds s)) =
               getViews loc s @ filter (\<lambda>v. location v = loc) vds))"
proof -
  have "isl (fst (registerViews vds s)) \<longleftrightarrow>
      \<not> (distinct (map (\<lambda>v. (location v, view_id v)) vds)
         \<and> (\<forall>v\<in>set vds. view_id v \<notin> view_id ` set (getViews (location v) s)))"
    by (simp only: registerViews_fst loop_error_iff)
  moreover have "isl (fst (registerViews vds s)) \<longrightarrow> fired (snd (registerViews vds s)) = fired s"
    by (auto simp add: registerViews_fired registerViews_fst)
  moreover have "vds = [] \<longrightarrow> fired (snd (registerViews vds s)) = fired s"
    by (simp add: registerViews_fired)
  moreover have "vds \<noteq> [] \<and> fst (registerViews vds s) = Inr () \<longrightarrow>
        fired (snd (registerViews vds s)) = fired s @ [OnViewsRegistered vds]"
    by (simp add: registerViews_fired registerViews_fst)
  moreover note registerViews_whole_batch_iff [of vds s]
  ultimately show ?thesis by blast
qed

text \<open>
  Witness for C9: a batch that repeats its descriptor raises and fires nothing; the
  descriptor alone is inserted and announced.
\<close>

theorem registerViews_notification_witness:
  "isl (fst (registerViews [descriptor ''a'' Explorer, descriptor ''a'' Explorer]
         (ViewsRegistry :: (unit, unit, unit) ViewsRegistryImpl)))
   \<and> fired (snd (registerViews [descriptor ''a'' Explorer, descriptor ''a'' Explorer]
         (ViewsRegistry :: (unit, unit, unit) ViewsRegistryImpl))) = []
   \<and> fst (registerViews [descriptor ''a'' Explorer]
         (ViewsRegistry :: (unit, unit, unit) ViewsRegistryImpl)) = Inr ()
   \<and> fired (snd (registerViews [descriptor ''a'' Explorer]
         (ViewsRegistry :: (unit, unit, unit) ViewsRegistryImpl)))
       = [OnViewsRegistered [descriptor ''a'' Explorer]]"
proof -
  let ?R = "ViewsRegistry :: (unit, unit, unit) ViewsRegistryImpl"
  let ?a = "descriptor ''a'' Explorer"
  have h1: "\<not> (distinct (map (\<lambda>v. (location v, view_id v)) [?a, ?a])
         \<and> (\<forall>v\<in>set [?a, ?a]. view_id v \<notin> view_id ` set (getViews (location v) ?R)))"
    by simp
  have h2: "[?a] \<noteq> [] \<and> fst (registerViews [?a] ?R) = Inr ()"
    by (simp add: registerViews_def ViewsRegistry_def)
  have f: "fired ?R = []" by (simp add: ViewsRegistry_def)
  from registerViews_notification [of "[?a, ?a]" ?R] h1
  have c1: "isl (fst (registerViews [?a, ?a] ?R))
          \<and> fired (snd (registerViews [?a, ?a] ?R)) = fired ?R"
    by blast
  from registerViews_notification [of "[?a]" ?R] h2
  have c2: "fired (snd (registerViews [?a] ?R)) = fired ?R @ [OnViewsRegistered [?a]]"
    by blast
  from c1 c2 h2 show ?thesis by (simp only: f) simp
qed

section \<open>Deregistering views\<close>

text \<open>
  C3, as stated, fails: in \<^const>\<open>debug_emptied\<close> the debug location has no registered
  descriptor (its array is empty), and \<^const>\<open>deregisterViews\<close> still fires a
  notification, with an empty payload.
\<close>

theorem deregisterViews_emptied_location_fires:
  "getViews Debug debug_emptied = []
   \<and> fired (deregisterViews [''a''] Debug debug_emptied) = fired debug_emptied @ [OnViewsDeregistered []]"
  by (simp add: debug_emptied_def deregisterViews_def registerViews_def getViews_def
      ViewsRegistry_def descriptor_def fire_def Let_def)

text \<open>
  C3, amended: if the registry holds no array for the location,
  \<^const>\<open>deregisterViews\<close> returns the registry unchanged and fires nothing. If it holds
  one - also an empty one - the location's array becomes the descriptors whose id is not
  in \<open>ids\<close>, in their old order, and one views-deregistered notification is fired
  carrying the descriptors whose id is in \<open>ids\<close>, which may be none.
\<close>

theorem deregisterViews_removes:
  "(map_of (views s) loc = None \<longrightarrow> deregisterViews ids loc s = s)
   \<and> (\<forall>vs. map_of (views s) loc = Some vs \<longrightarrow>
         map_of (views (deregisterViews ids loc s)) loc = Some (filter (\<lambda>v. view_id v \<notin> set ids) vs)
       \<and> getViews loc (deregisterViews ids loc s) = filter (\<lambda>v. view_id v \<notin> set ids) vs
       \<and> fired (deregisterViews ids loc s) =
           fired s @ [OnViewsDeregistered (filter (\<lambda>v. view_id v \<in> set ids) vs)])"
  by (simp add: deregisterViews_unknown deregisterViews_known getViews_def)

text \<open>
  Witness for C3: deregistering in the initial registry, and deregistering \<open>b\<close> and an
  unknown id \<open>x\<close> from an explorer that holds \<open>a\<close>, \<open>b\<close>, \<open>c\<close>.
\<close>

theorem deregisterViews_removes_witness:
  "deregisterViews [''a''] Debug (ViewsRegistry :: (unit, unit, unit) ViewsRegistryImpl) = ViewsRegistry
   \<and> getViews Explorer (deregisterViews [''b'', ''x''] Explorer
        (snd (registerViews [descriptor ''a'' Explorer, descriptor ''b'' Explorer, descriptor ''c'' Explorer]
               (ViewsRegistry :: (unit, unit, unit) ViewsRegistryImpl))))
       = [descriptor ''a'' Explorer, descriptor ''c'' Explorer]
   \<and> fired (deregisterViews [''b'', ''x''] Explorer
        (snd (registerViews [descriptor ''a'' Explorer, descriptor ''b'' Explorer, descriptor ''c'' Explorer]
               (ViewsRegistry :: (unit, unit, unit) ViewsRegistryImpl))))
       = [OnViewsRegistered [descriptor ''a'' Explorer, descriptor ''b'' Explorer, descriptor ''c'' Explorer],
          OnViewsDeregistered [descriptor ''b'' Explorer]]"
proof -
  let ?R = "ViewsRegistry :: (unit, unit, unit) ViewsRegistryImpl"
  let ?vs = "[descriptor ''a'' Explorer, descriptor ''b'' Explorer, descriptor ''c'' Explorer]"
  let ?s = "snd (registerViews ?vs ?R)"
  have h1: "map_of (views ?R) Debug = None"
    by (simp add: ViewsRegistry_def)
  have h2: "map_of (views ?s) Explorer = Some ?vs"
    by (simp add: registerViews_def ViewsRegistry_def descriptor_def fire_def)
  have f: "fired ?s = [OnViewsRegistered ?vs]"
    by (simp add: registerViews_def ViewsRegistry_def descriptor_def fire_def)
  from deregisterViews_removes [of ?R Debug "[''a'']"] h1
  have c1: "deregisterViews [''a''] Debug ?R = ?R" by blast
  from deregisterViews_removes [of ?s Explorer "[''b'', ''x'']"] h2
  have c2: "getViews Explorer (deregisterViews [''b'', ''x''] Explorer ?s) =
              filter (\<lambda>v. view_id v \<notin> set [''b'', ''x'']) ?vs
          \<and> fired (deregisterViews [''b'', ''x''] Explorer ?s) =
              fired ?s @ [OnViewsDeregistered (filter (\<lambda>v. view_id v \<in> set [''b'', ''x'']) ?vs)]"
    by blast
  have e1: "filter (\<lambda>v. view_id v \<notin> set [''b'', ''x'']) ?vs = [descriptor ''a'' Explorer, descriptor ''c'' Explorer]"
    by (simp add: descriptor_def)
  have e2: "filter (\<lambda>v. view_id v \<in> set [''b'', ''x'']) ?vs = [descriptor ''b'' Explorer]"
    by (simp add: descriptor_def)
  from c1 c2 show ?thesis by (simp only: e1 e2 f) simp
qed

section \<open>Unique ids within a location\<close>

text \<open>
  C5: in the registry reached from the initial one by any sequence of calls of the four
  mutating operations (a raised error leaving the registry as the throw left it), the
  ids of the descriptors of a location are pairwise different. And in such a registry a
  call of \<^const>\<open>registerViews\<close> that would break this - a descriptor of the batch has
  the id of a descriptor already in the sequence of its location, or two descriptors of
  the batch have the same id and location - raises an error; every location's old
  sequence is still the beginning of its new one (nothing is overwritten), and the ids
  of the new one are pairwise different.
\<close>

theorem no_duplicate_ids:
  "distinct (map view_id (getViews loc (fold call_step calls ViewsRegistry)))
   \<and> (\<not> (distinct (map (\<lambda>v. (location v, view_id v)) vds)
          \<and> (\<forall>v\<in>set vds. view_id v
                 \<notin> view_id ` set (getViews (location v) (fold call_step calls ViewsRegistry))))
        \<longrightarrow> isl (fst (registerViews vds (fold call_step calls ViewsRegistry)))
          \<and> prefix (getViews loc (fold call_step calls ViewsRegistry))
                   (getViews loc (snd (registerViews vds (fold call_step calls ViewsRegistry)))))
   \<and> distinct (map view_id
        (getViews loc (snd (registerViews vds (fold call_step calls ViewsRegistry)))))"
proof -
  have init: "\<forall>l. distinct (map view_id (getViews l (ViewsRegistry :: ('a, 'b, 'c) ViewsRegistryImpl)))"
    by (simp add: getViews_ViewsRegistry)
  then have "distinct (map view_id (getViews loc (fold call_step calls (ViewsRegistry :: ('a, 'b, 'c) ViewsRegistryImpl))))"
    by (rule fold_call_step_distinct)
  moreover have "\<not> (distinct (map (\<lambda>v. (location v, view_id v)) vds)
          \<and> (\<forall>v\<in>set vds. view_id v \<notin> view_id ` set (getViews (location v) s)))
        \<longrightarrow> isl (fst (registerViews vds s))" for s :: "('a, 'b, 'c) ViewsRegistryImpl"
    by (simp only: registerViews_fst loop_error_iff) blast
  moreover have "distinct (map view_id
        (getViews loc (snd (registerViews vds (fold call_step calls (ViewsRegistry :: ('a, 'b, 'c) ViewsRegistryImpl))))))"
    using fold_call_step_distinct [OF init, of loc "calls @ [RegisterViews vds]"] by simp
  ultimately show ?thesis
    using registerViews_prefix by blast
qed

text \<open>
  Witness for C5: on the initial registry a batch that repeats view \<open>a\<close> raises; and
  with \<open>a\<close> in the explorer, a batch with a new view \<open>b\<close> and \<open>a\<close> again raises,
  and \<open>a\<close> is still the first view of the explorer.
\<close>

theorem no_duplicate_ids_witness:
  "isl (fst (registerViews [descriptor ''a'' Explorer, descriptor ''a'' Explorer]
      (fold call_step [] (ViewsRegistry :: (unit, unit, unit) ViewsRegistryImpl))))
   \<and> distinct (map view_id (getViews Explorer
      (fold call_step [RegisterViews [descriptor ''a'' Explorer], RegisterTreeViewDataProvider ''a'' ()]
         (ViewsRegistry :: (unit, unit, unit) ViewsRegistryImpl))))
   \<and> isl (fst (registerViews [descriptor ''b'' Explorer, descriptor ''a'' Explorer]
      (fold call_step [RegisterViews [descriptor ''a'' Explorer], RegisterTreeViewDataProvider ''a'' ()]
         (ViewsRegistry :: (unit, unit, unit) ViewsRegistryImpl))))
   \<and> prefix [descriptor ''a'' Explorer]
       (getViews Explorer (snd (registerViews [descriptor ''b'' Explorer, descriptor ''a'' Explorer]
      (fold call_step [RegisterViews [descriptor ''a'' Explorer], RegisterTreeViewDataProvider ''a'' ()]
         (ViewsRegistry :: (unit, unit, unit) ViewsRegistryImpl)))))"
proof -
  let ?R = "ViewsRegistry :: (unit, unit, unit) ViewsRegistryImpl"
  let ?a = "descriptor ''a'' Explorer"
  let ?calls = "[RegisterViews [?a], RegisterTreeViewDataProvider ''a'' ()]"
  let ?s = "fold call_step ?calls ?R"
  let ?vds = "[descriptor ''b'' Explorer, ?a]"
  have h0: "\<not> (distinct (map (\<lambda>v. (location v, view_id v)) [?a, ?a])
          \<and> (\<forall>v\<in>set [?a, ?a]. view_id v
                 \<notin> view_id ` set (getViews (location v) (fold call_step [] ?R))))"
    by simp
  from no_duplicate_ids [of Explorer "[]" "[?a, ?a]"] h0
  have c0: "isl (fst (registerViews [?a, ?a] (fold call_step [] ?R)))"
    by blast
  have g: "getViews Explorer ?s = [?a]"
    by (simp add: registerViews_def registerTreeViewDataProvider_def ViewsRegistry_def
        getViews_def fire_def descriptor_def)
  have "location ?a = Explorer"
    by (simp add: descriptor_def)
  then have "view_id ?a \<in> view_id ` set (getViews (location ?a) ?s)"
    by (simp only: g) simp
  then have "\<exists>v\<in>set ?vds. view_id v \<in> view_id ` set (getViews (location v) ?s)"
    by (rule bexI [where x = ?a]) simp
  then have h: "\<not> (distinct (map (\<lambda>v. (location v, view_id v)) ?vds)
          \<and> (\<forall>v\<in>set ?vds. view_id v \<notin> view_id ` set (getViews (location v) ?s)))"
    by blast
  from no_duplicate_ids [of Explorer ?calls ?vds] h
  have "distinct (map view_id (getViews Explorer ?s))
      \<and> isl (fst (registerViews ?vds ?s))
      \<and> prefix (getViews Explorer ?s) (getViews Explorer (snd (registerViews ?vds ?s)))"
    by blast
  with c0 show ?thesis by (simp only: g)
qed

section \<open>The two maps are isolated\<close>

text \<open>
  C10: \<^const>\<open>registerViews\<close> (raising or not) and \<^const>\<open>deregisterViews\<close> leave the
  provider bindings as they are; \<^const>\<open>registerTreeViewDataProvider\<close> and
  \<^const>\<open>deregisterTreeViewDataProviders\<close> leave the map of the views as it is; and
  \<^const>\<open>deregisterViews\<close> leaves the entry, and so the sequence, of every location
  other than the given one as it is.
\<close>

theorem maps_isolated:
  "treeViewDataPoviders (snd (registerViews vds s)) = treeViewDataPoviders s
   \<and> treeViewDataPoviders (deregisterViews ids loc s) = treeViewDataPoviders s
   \<and> views (registerTreeViewDataProvider i p s) = views s
   \<and> views (deregisterTreeViewDataProviders s) = views s
   \<and> (loc' \<noteq> loc \<longrightarrow>
        map_of (views (deregisterViews ids loc s)) loc' = map_of (views s) loc'
      \<and> getViews loc' (deregisterViews ids loc s) = getViews loc' s)"
  by (simp add: registerViews_providers deregisterViews_providers deregisterViews_other
      getViews_deregisterViews registerTreeViewDataProvider_def deregisterTreeViewDataProviders_def
      fire_def)

text \<open>
  Witness for C10: deregistering \<open>a\<close> from the debug location leaves the \<open>a\<close> of the
  explorer in place.
\<close>

theorem maps_isolated_witness:
  "Explorer \<noteq> Debug
   \<and> getViews Explorer (deregisterViews [''a''] Debug
        (snd (registerViews [descriptor ''a'' Explorer, descriptor ''a'' Debug]
               (ViewsRegistry :: (unit, unit, unit) ViewsRegistryImpl))))
     = [descriptor ''a'' Explorer]"
proof -
  let ?s = "snd (registerViews [descriptor ''a'' Explorer, descriptor ''a'' Debug]
               (ViewsRegistry :: (unit, unit, unit) ViewsRegistryImpl))"
  have h: "Explorer \<noteq> Debug" by (simp add: Explorer_def Debug_def)
  have g: "getViews Explorer ?s = [descriptor ''a'' Explorer]"
    by (simp add: registerViews_def ViewsRegistry_def getViews_def fire_def descriptor_def
        Explorer_def Debug_def)
  from maps_isolated [of "[]" ?s "[''a'']" Debug "''x''" "()" Explorer] h
  have "getViews Explorer (deregisterViews [''a''] Debug ?s) = getViews Explorer ?s"
    by blast
  with h show ?thesis by (simp only: g) simp
qed

end
